theory Spec2Isabelle
  imports Main "HOL-Library.Log_Nat" "HOL-Library.Multiset"
begin

section \<open>Python values used by the summarisation pipeline\<close>

text \<open>
  Exceptions are values. \<open>RuntimeError\<close> is what \<open>OllamaSummarizer.summarize\<close> raises when the
  text-generation call fails; \<open>IndexError\<close> is what a list subscript raises out of range.
\<close>

datatype exn = RuntimeError | IndexError

text \<open>
  \<open>xs[i]\<close> on a Python list: a negative subscript counts from the end, and a subscript outside
  the list raises.
\<close>

definition py_get :: "'a list \<Rightarrow> int \<Rightarrow> exn + 'a" where
  "py_get xs i =
     (let j = (if i < 0 then i + int (length xs) else i)
      in if j < 0 \<or> int (length xs) \<le> j then Inl IndexError else Inr (xs ! nat j))"

text \<open>\<open>range(start, stop, step)\<close> for a positive step.\<close>

definition py_range :: "int \<Rightarrow> int \<Rightarrow> int \<Rightarrow> int list" where
  "py_range start stop step =
     map (\<lambda>j. start + step * int j) [0..<nat ((stop - start + step - 1) div step)]"

text \<open>\<open>sep.join(parts)\<close>.\<close>

fun join :: "string \<Rightarrow> string list \<Rightarrow> string" where
  "join sep [] = []"
| "join sep [x] = x"
| "join sep (x # y # ys) = x @ sep @ join sep (y # ys)"

section \<open>The hierarchical merger (merger.py)\<close>

text \<open>
  One call of the summarisation backend, as the merger sees it: the text sent and the
  \<open>is_final\<close> flag of \<open>OllamaSummarizer.summarize(text, is_final=False)\<close>.
\<close>

record call =
  call_text :: string
  call_is_final :: bool

text \<open>
  The environment of one run of \<open>merge_documents\<close>. The backend is a black box that may answer
  or raise differently at every call, so its outcome is given per call site: \<open>summarize env k i\<close>
  is the behaviour of the call submitted for pair \<open>i\<close> of round \<open>k\<close>. The thread pool completes
  the futures of a round in an order of its own: \<open>finish env k i\<close> is the completion time of
  pair \<open>i\<close> of round \<open>k\<close>, and \<open>as_completed\<close> yields the futures by increasing completion time.
  \<open>SHUFFLE_CHUNKS\<close> is the setting of that name, and \<open>shuffle_key\<close> stands for the random
  source of \<open>random.shuffle\<close>: position \<open>i\<close> of the list is moved according to its key.
\<close>

record env =
  summarize :: "nat \<Rightarrow> nat \<Rightarrow> string \<Rightarrow> bool \<Rightarrow> exn + string"
  finish :: "nat \<Rightarrow> nat \<Rightarrow> nat"
  SHUFFLE_CHUNKS :: bool
  shuffle_key :: "nat \<Rightarrow> nat"

text \<open>A list rearranged by a key on its positions: always a permutation of the list.\<close>

definition reorder :: "(nat \<Rightarrow> nat) \<Rightarrow> 'a list \<Rightarrow> 'a list" where
  "reorder key xs = map snd (sort_key (\<lambda>p. key (fst p)) (enumerate 0 xs))"

definition random_shuffle :: "env \<Rightarrow> string list \<Rightarrow> string list" where
  "random_shuffle env documents = reorder (shuffle_key env) documents"

definition as_completed :: "(nat \<Rightarrow> nat) \<Rightarrow> 'a list \<Rightarrow> 'a list" where
  "as_completed finish_time futures = reorder finish_time futures"

text \<open>\<open>_create_pairs\<close>: the loop over \<open>range(0, len(documents) - 1, 2)\<close>.\<close>

fun create_pairs_loop :: "string list \<Rightarrow> int list \<Rightarrow> string list list \<Rightarrow> exn + string list list" where
  "create_pairs_loop documents [] pairs = Inr pairs"
| "create_pairs_loop documents (i # rest) pairs =
     (case py_get documents i of
        Inl e \<Rightarrow> Inl e
      | Inr a \<Rightarrow>
          (case py_get documents (i + 1) of
             Inl e \<Rightarrow> Inl e
           | Inr b \<Rightarrow> create_pairs_loop documents rest (pairs @ [[a, b]])))"

definition create_pairs :: "string list \<Rightarrow> exn + string list list" where
  "create_pairs documents =
     create_pairs_loop documents (py_range 0 (int (length documents) - 1) 2) []"

text \<open>
  \<open>_merge_pair\<close>: the two texts joined by a blank line and sent to the backend. The call
  passes one argument, so \<open>is_final\<close> takes its default \<open>False\<close>. The result is the call made
  together with what the future will hold: the summary, or the exception raised.
\<close>

definition merge_pair :: "(string \<Rightarrow> bool \<Rightarrow> exn + string) \<Rightarrow> string list \<Rightarrow> call \<times> (exn + string)" where
  "merge_pair backend pair =
     (let combined = join [CHR 0x0A, CHR 0x0A] pair
      in (\<lparr>call_text = combined, call_is_final = False\<rparr>, backend combined False))"

text \<open>
  The loop over \<open>as_completed\<close>: a result is appended to \<open>next_level\<close>, an exception is caught
  (and printed) and contributes nothing.
\<close>

fun collect :: "(exn + string) list \<Rightarrow> string list \<Rightarrow> string list" where
  "collect [] next_level = next_level"
| "collect (Inr merged # futures) next_level = collect futures (next_level @ [merged])"
| "collect (Inl e # futures) next_level = collect futures next_level"

text \<open>
  One iteration of the \<open>while\<close> loop of \<open>merge_documents\<close>, round \<open>k\<close>: the next level and the
  calls submitted in this round.
\<close>

definition merge_round :: "env \<Rightarrow> nat \<Rightarrow> string list \<Rightarrow> exn + (string list \<times> call list)" where
  "merge_round env k current_level =
     (case create_pairs current_level of
        Inl e \<Rightarrow> Inl e
      | Inr pairs \<Rightarrow>
          (let futures = map (\<lambda>(i, pair). merge_pair (summarize env k i) pair) (enumerate 0 pairs);
               next_level = collect (map snd (as_completed (finish env k) futures)) []
           in if int (length current_level) mod 2 = 1
              then (case py_get current_level (- 1) of
                      Inl e \<Rightarrow> Inl e
                    | Inr tail \<Rightarrow> Inr (next_level @ [tail], map fst futures))
              else Inr (next_level, map fst futures)))"

subsection \<open>Facts about one round, needed to define the loop\<close>

lemma py_get_nth: "i < length xs \<Longrightarrow> py_get xs (int i) = Inr (xs ! i)"
  by (simp add: py_get_def)

lemma py_get_last: "xs \<noteq> [] \<Longrightarrow> py_get xs (- 1) = Inr (last xs)"
  by (cases xs rule: rev_cases) (simp_all add: py_get_def nat_diff_distrib')

lemma py_range_pairs: "py_range 0 (int n - 1) 2 = map (\<lambda>j. 2 * int j) [0..<n div 2]"
proof -
  have "nat ((int n - 1 - 0 + 2 - 1) div 2) = n div 2"
    by linarith
  then show ?thesis
    by (simp add: py_range_def)
qed

text \<open>The pairs that \<open>_create_pairs\<close> builds, by position.\<close>

definition pair_at :: "string list \<Rightarrow> nat \<Rightarrow> string list" where
  "pair_at documents j = [documents ! (2 * j), documents ! (2 * j + 1)]"

lemma create_pairs_loop_ok:
  "\<forall>j \<in> set js. 2 * j + 1 < length documents \<Longrightarrow>
   create_pairs_loop documents (map (\<lambda>j. 2 * int j) js) pairs
     = Inr (pairs @ map (pair_at documents) js)"
proof (induction js arbitrary: pairs)
  case Nil
  show ?case by simp
next
  case (Cons j js)
  have a: "py_get documents (2 * int j) = Inr (documents ! (2 * j))"
    using Cons.prems py_get_nth [of "2 * j" documents] by simp
  have b: "py_get documents (2 * int j + 1) = Inr (documents ! (2 * j + 1))"
    using Cons.prems py_get_nth [of "2 * j + 1" documents] by (simp add: add.commute)
  show ?case
    using Cons.IH [of "pairs @ [pair_at documents j]"] Cons.prems
    by (simp add: a b pair_at_def)
qed

lemma create_pairs_ok:
  "create_pairs documents = Inr (map (pair_at documents) [0..<length documents div 2])"
proof -
  have "\<forall>j \<in> set [0..<length documents div 2]. 2 * j + 1 < length documents"
    by auto
  from create_pairs_loop_ok [OF this, of "[]"] show ?thesis
    by (simp add: create_pairs_def py_range_pairs)
qed

text \<open>The summaries among the outcomes of a round's futures, in the order given.\<close>

definition summaries :: "(exn + string) list \<Rightarrow> string list" where
  "summaries outcomes = map projr (filter (\<lambda>r. \<not> isl r) outcomes)"

text \<open>The futures of round \<open>k\<close> in submission order: the call of each pair and its outcome.\<close>

definition futures_of :: "env \<Rightarrow> nat \<Rightarrow> string list \<Rightarrow> (call \<times> (exn + string)) list" where
  "futures_of env k current_level =
     map (\<lambda>j. merge_pair (summarize env k j) (pair_at current_level j))
       [0..<length current_level div 2]"

lemma collect_eq: "collect outcomes next_level = next_level @ summaries outcomes"
  by (induction outcomes next_level rule: collect.induct) (simp_all add: summaries_def)

lemma mset_reorder: "mset (reorder key xs) = mset xs"
proof -
  have "mset (reorder key xs) = image_mset snd (mset (enumerate 0 xs))"
    by (simp add: reorder_def)
  also have "\<dots> = mset (map snd (enumerate 0 xs))"
    by (rule mset_map [symmetric])
  also have "\<dots> = mset xs"
    by (simp only: map_snd_enumerate)
  finally show ?thesis .
qed

lemma length_reorder: "length (reorder key xs) = length xs"
  by (simp add: reorder_def)

lemma mset_summaries: "mset xs = mset ys \<Longrightarrow> mset (summaries xs) = mset (summaries ys)"
  by (simp add: summaries_def)

lemma length_summaries_le: "length (summaries xs) \<le> length xs"
  by (simp add: summaries_def)

lemma futures_enumerate:
  "map (\<lambda>(i, pair). merge_pair (summarize env k i) pair)
     (enumerate 0 (map (pair_at current_level) [0..<length current_level div 2]))
   = futures_of env k current_level"
  by (simp add: enumerate_map_upt futures_of_def)

lemma merge_round_eq:
  "merge_round env k current_level =
     Inr (summaries (map snd (as_completed (finish env k) (futures_of env k current_level)))
            @ (if odd (length current_level) then [last current_level] else []),
          map fst (futures_of env k current_level))"
proof (cases "odd (length current_level)")
  case True
  then have ne: "current_level \<noteq> []"
    by auto
  from True have "int (length current_level) mod 2 = 1"
    by presburger
  then show ?thesis
    using True
    by (simp add: merge_round_def create_pairs_ok futures_enumerate collect_eq
        py_get_last [OF ne] Let_def)
next
  case False
  then have "int (length current_level) mod 2 \<noteq> 1"
    by presburger
  then show ?thesis
    using False
    by (simp add: merge_round_def create_pairs_ok futures_enumerate collect_eq Let_def)
qed

lemma length_futures_of: "length (futures_of env k current_level) = length current_level div 2"
  by (simp add: futures_of_def)

lemma length_completed_summaries:
  "length (summaries (map snd (as_completed t fs))) \<le> length fs"
  using length_summaries_le [of "map snd (as_completed t fs)"]
  by (simp add: as_completed_def length_reorder)

lemma merge_round_shrinks:
  assumes "merge_round env k current_level = Inr (next_level, cs)"
  shows "length next_level \<le> (length current_level + 1) div 2"
proof -
  let ?fs = "futures_of env k current_level"
  have "length (summaries (map snd (as_completed (finish env k) ?fs))) \<le> length current_level div 2"
    using length_completed_summaries [of "finish env k" ?fs] by (simp add: length_futures_of)
  moreover have "next_level = summaries (map snd (as_completed (finish env k) ?fs))
      @ (if odd (length current_level) then [last current_level] else [])"
    using assms by (simp add: merge_round_eq)
  ultimately show ?thesis
    by (cases "odd (length current_level)") (auto elim: oddE)
qed

text \<open>
  The \<open>while len(current_level) > 1\<close> loop. The state is the round number, the current level
  and the calls made so far; the loop ends because a round leaves at most half of the level,
  rounded up.
\<close>

function merge_loop ::
  "env \<Rightarrow> nat \<Rightarrow> string list \<Rightarrow> call list \<Rightarrow> exn + (nat \<times> string list \<times> call list)" where
  "merge_loop env k current_level made =
     (if length current_level > 1
      then (case merge_round env k current_level of
              Inl e \<Rightarrow> Inl e
            | Inr (next_level, cs) \<Rightarrow> merge_loop env (Suc k) next_level (made @ cs))
      else Inr (k, current_level, made))"
  by pat_completeness auto
termination
proof (relation "measure (\<lambda>(env, k, current_level, made). length current_level)")
  show "wf (measure (\<lambda>(env, k, current_level, made). length current_level))"
    by simp
next
  fix env :: env and k :: nat and current_level :: "string list" and made :: "call list"
    and x2 :: "string list \<times> call list" and next_level :: "string list" and cs :: "call list"
  assume big: "1 < length current_level"
    and r: "merge_round env k current_level = Inr x2" and x: "(next_level, cs) = x2"
  from r x have "length next_level \<le> (length current_level + 1) div 2"
    using merge_round_shrinks [of env k current_level next_level cs] by simp
  with big have "length next_level < length current_level"
    by linarith
  then show "((env, Suc k, next_level, made @ cs), (env, k, current_level, made))
      \<in> measure (\<lambda>(env, k, current_level, made). length current_level)"
    by simp
qed

text \<open>
  What a run of \<open>merge_documents\<close> returns and does: the string returned, the number of
  iterations of the loop, the level the loop ended with, and the calls made to the backend.
\<close>

record merge_result =
  returned :: string
  rounds :: nat
  final_level :: "string list"
  calls :: "call list"

definition merge_documents :: "env \<Rightarrow> string list \<Rightarrow> exn + merge_result" where
  "merge_documents env documents =
     (if documents = [] then
        Inr \<lparr>returned = [], rounds = 0, final_level = [], calls = []\<rparr>
      else if length documents = 1 then
        (case py_get documents 0 of
           Inl e \<Rightarrow> Inl e
         | Inr d \<Rightarrow> Inr \<lparr>returned = d, rounds = 0, final_level = documents, calls = []\<rparr>)
      else
        (case merge_loop env 0
                (if SHUFFLE_CHUNKS env then random_shuffle env documents else documents) [] of
           Inl e \<Rightarrow> Inl e
         | Inr (k, current_level, made) \<Rightarrow>
             if current_level \<noteq> [] then
               (case py_get current_level 0 of
                  Inl e \<Rightarrow> Inl e
                | Inr d \<Rightarrow>
                    Inr \<lparr>returned = d, rounds = k, final_level = current_level, calls = made\<rparr>)
             else
               Inr \<lparr>returned = [], rounds = k, final_level = current_level, calls = made\<rparr>))"

declare merge_loop.simps [simp del]


definition round_next :: "env \<Rightarrow> nat \<Rightarrow> string list \<Rightarrow> string list" where
  "round_next env k current_level =
     summaries (map snd (as_completed (finish env k) (futures_of env k current_level)))
       @ (if odd (length current_level) then [last current_level] else [])"

definition round_calls :: "env \<Rightarrow> nat \<Rightarrow> string list \<Rightarrow> call list" where
  "round_calls env k current_level = map fst (futures_of env k current_level)"

lemma merge_round_closed:
  "merge_round env k current_level = Inr (round_next env k current_level, round_calls env k current_level)"
  by (simp add: merge_round_eq round_next_def round_calls_def)

lemma merge_loop_step:
  "1 < length current_level \<Longrightarrow>
   merge_loop env k current_level made =
     merge_loop env (Suc k) (round_next env k current_level) (made @ round_calls env k current_level)"
  by (subst merge_loop.simps) (simp add: merge_round_closed)

lemma merge_loop_stop:
  "length current_level \<le> 1 \<Longrightarrow> merge_loop env k current_level made = Inr (k, current_level, made)"
  by (subst merge_loop.simps) simp

lemma length_round_next_le: "length (round_next env k current_level) \<le> (length current_level + 1) div 2"
  using merge_round_shrinks [OF merge_round_closed] .

lemma merge_loop_returns:
  "\<exists>k' final made'. merge_loop env k current_level made = Inr (k', final, made') \<and> length final \<le> 1"
proof (induction "length current_level" arbitrary: k current_level made rule: less_induct)
  case less
  show ?case
  proof (cases "1 < length current_level")
    case True
    have "length (round_next env k current_level) < length current_level"
      using length_round_next_le [of env k current_level] True by linarith
    from less [OF this, of "Suc k" "made @ round_calls env k current_level"] show ?thesis
      by (simp only: merge_loop_step [OF True])
  next
    case False
    then show ?thesis
      by (simp add: merge_loop_stop)
  qed
qed

lemma merge_documents_returns: "\<exists>r. merge_documents env documents = Inr r"
proof -
  obtain k' final made' where
    "merge_loop env 0 (if SHUFFLE_CHUNKS env then random_shuffle env documents else documents) []
       = Inr (k', final, made')"
    using merge_loop_returns by blast
  then show ?thesis
    by (cases final) (auto simp: merge_documents_def py_get_def Let_def split: sum.splits)
qed

definition pair_text :: "string list \<Rightarrow> nat \<Rightarrow> string" where
  "pair_text current_level j = join [CHR 0x0A, CHR 0x0A] (pair_at current_level j)"

lemma futures_of_nth:
  "futures_of env k current_level =
     map (\<lambda>j. (\<lparr>call_text = pair_text current_level j, call_is_final = False\<rparr>,
                summarize env k j (pair_text current_level j) False))
       [0..<length current_level div 2]"
  by (simp add: futures_of_def merge_pair_def pair_text_def Let_def)

lemma round_calls_eq:
  "round_calls env k current_level =
     map (\<lambda>j. \<lparr>call_text = pair_text current_level j, call_is_final = False\<rparr>)
       [0..<length current_level div 2]"
  by (simp add: round_calls_def futures_of_nth comp_def)

definition outcomes :: "env \<Rightarrow> nat \<Rightarrow> string list \<Rightarrow> (exn + string) list" where
  "outcomes env k current_level =
     map (\<lambda>j. summarize env k j (pair_text current_level j) False) [0..<length current_level div 2]"

lemma map_snd_futures: "map snd (futures_of env k current_level) = outcomes env k current_level"
  by (simp add: futures_of_nth outcomes_def comp_def)

lemma mset_completed:
  "mset (summaries (map snd (as_completed t fs))) = mset (summaries (map snd fs))"
proof (rule mset_summaries)
  have "mset (map snd (as_completed t fs)) = image_mset snd (mset (as_completed t fs))"
    by simp
  also have "\<dots> = image_mset snd (mset fs)"
    by (simp only: as_completed_def mset_reorder)
  finally show "mset (map snd (as_completed t fs)) = mset (map snd fs)"
    by simp
qed

lemma mset_round_next:
  "mset (round_next env k current_level) =
     mset (summaries (outcomes env k current_level))
       + (if odd (length current_level) then {#last current_level#} else {#})"
  by (simp add: round_next_def mset_completed map_snd_futures)

lemma summaries_all_ok:
  "\<forall>r \<in> set rs. \<not> isl r \<Longrightarrow> length (summaries rs) = length rs"
  by (simp add: summaries_def)

lemma summaries_all_fail:
  "\<forall>r \<in> set rs. isl r \<Longrightarrow> summaries rs = []"
  by (simp add: summaries_def)

lemma set_summaries: "set (summaries rs) = {s. Inr s \<in> set rs}"
proof -
  have "\<And>r. r \<in> set rs \<Longrightarrow> \<not> isl r \<Longrightarrow> Inr (projr r) \<in> set rs"
    by (case_tac r) auto
  moreover have "\<And>s. Inr s \<in> set rs \<Longrightarrow> s \<in> projr ` {r \<in> set rs. \<not> isl r}"
    by force
  ultimately show ?thesis
    by (auto simp: summaries_def)
qed

lemma length_round_next:
  "length (round_next env k current_level) =
     length (summaries (outcomes env k current_level)) + (if odd (length current_level) then 1 else 0)"
proof -
  have "size (mset (round_next env k current_level)) =
      size (mset (summaries (outcomes env k current_level))
        + (if odd (length current_level) then {#last current_level#} else {#}))"
    by (simp only: mset_round_next)
  then show ?thesis
    by simp
qed

lemma length_outcomes: "length (outcomes env k current_level) = length current_level div 2"
  by (simp add: outcomes_def)

lemma length_round_next_ok:
  assumes "\<forall>j < length current_level div 2. \<not> isl (summarize env k j (pair_text current_level j) False)"
  shows "length (round_next env k current_level) = (length current_level + 1) div 2"
proof -
  have "\<forall>r \<in> set (outcomes env k current_level). \<not> isl r"
    using assms by (auto simp: outcomes_def)
  then have "length (summaries (outcomes env k current_level)) = length current_level div 2"
    by (simp add: summaries_all_ok length_outcomes)
  then show ?thesis
    by (cases "odd (length current_level)") (auto simp: length_round_next elim: oddE)
qed

lemma merge_loop_rounds:
  assumes nf: "\<forall>k j text. \<not> isl (summarize env k j text False)"
  shows "current_level \<noteq> [] \<Longrightarrow>
    \<exists>final made'. merge_loop env k current_level made
        = Inr (k + ceillog2 (length current_level), final, made') \<and> length final = 1"
proof (induction "length current_level" arbitrary: k current_level made rule: less_induct)
  case less
  show ?case
  proof (cases "1 < length current_level")
    case True
    let ?next = "round_next env k current_level"
    have len: "length ?next = (length current_level + 1) div 2"
      using nf by (simp add: length_round_next_ok)
    with True have smaller: "length ?next < length current_level" and ne: "?next \<noteq> []"
      by auto
    have "ceillog2 (length current_level) = 1 + ceillog2 (length ?next)"
      using True ceillog2_rec [of "length current_level"] by (simp add: len)
    then show ?thesis
      using less.hyps [OF smaller ne, of "Suc k" "made @ round_calls env k current_level"]
      by (simp add: merge_loop_step [OF True])
  next
    case False
    with less.prems have "length current_level = 1"
      by (cases current_level) auto
    then show ?thesis
      by (simp add: merge_loop_stop)
  qed
qed

lemma length_random_shuffle: "length (random_shuffle env documents) = length documents"
  by (simp add: random_shuffle_def length_reorder)

definition echo_env :: env where
  "echo_env = \<lparr>summarize = (\<lambda>k i text is_final. Inr text), finish = (\<lambda>k i. i),
     SHUFFLE_CHUNKS = False, shuffle_key = (\<lambda>i. i)\<rparr>"

text \<open>
  C1. In a round in which no call fails, the next level has \<open>ceil(n / 2)\<close> elements, \<open>n\<close> being
  the length of the current level. In a run in which no call fails, on a pool of \<open>n \<ge> 1\<close>
  documents, \<open>merge_documents\<close> returns after \<open>ceil(log2 n)\<close> rounds with a level of one element.
\<close>

theorem merge_reduction_size_law:
  "((\<forall>j < length current_level div 2.
        \<not> isl (summarize env k j (pair_text current_level j) False)) \<longrightarrow>
    (\<exists>next_level cs. merge_round env k current_level = Inr (next_level, cs)
        \<and> int (length next_level) = \<lceil>real (length current_level) / 2\<rceil>))
   \<and> ((\<forall>k j text. \<not> isl (summarize env k j text False)) \<and> documents \<noteq> [] \<longrightarrow>
    (\<exists>r. merge_documents env documents = Inr r
        \<and> rounds r = nat \<lceil>log 2 (real (length documents))\<rceil>
        \<and> length (final_level r) = 1))"
proof (intro conjI impI)
  assume ok: "\<forall>j < length current_level div 2.
      \<not> isl (summarize env k j (pair_text current_level j) False)"
  have "int ((length current_level + 1) div 2) = \<lceil>real (length current_level) / 2\<rceil>"
    by linarith
  then show "\<exists>next_level cs. merge_round env k current_level = Inr (next_level, cs)
        \<and> int (length next_level) = \<lceil>real (length current_level) / 2\<rceil>"
    using length_round_next_ok [OF ok] by (simp add: merge_round_closed)
next
  assume a: "(\<forall>k j text. \<not> isl (summarize env k j text False)) \<and> documents \<noteq> []"
  then have nf: "\<forall>k j text. \<not> isl (summarize env k j text False)" and ne: "documents \<noteq> []"
    by auto
  let ?docs = "if SHUFFLE_CHUNKS env then random_shuffle env documents else documents"
  have len: "length ?docs = length documents"
    by (simp add: length_random_shuffle)
  with ne have ne': "?docs \<noteq> []"
    by (cases ?docs) auto
  have log: "ceillog2 (length documents) = nat \<lceil>log 2 (real (length documents))\<rceil>"
    using ne by (simp add: ceillog2_def)
  show "\<exists>r. merge_documents env documents = Inr r
        \<and> rounds r = nat \<lceil>log 2 (real (length documents))\<rceil>
        \<and> length (final_level r) = 1"
  proof (cases "length documents = 1")
    case True
    then have "py_get documents 0 = Inr (documents ! 0)"
      by (simp add: py_get_def)
    with True ne show ?thesis
      by (simp add: merge_documents_def)
  next
    case False
    obtain final made' where
      run: "merge_loop env 0 ?docs [] = Inr (0 + ceillog2 (length ?docs), final, made')"
      and one: "length final = 1"
      using merge_loop_rounds [OF nf ne', of 0 "[]"] by blast
    from one have "py_get final 0 = Inr (final ! 0)" and "final \<noteq> []"
      by (auto simp: py_get_def)
    with False ne run one show ?thesis
      unfolding merge_documents_def len log [symmetric]
      by (simp add: len)
  qed
qed

theorem merge_reduction_size_law_witness:
  "(\<exists>next_level cs. merge_round echo_env 0 [''A'', ''B'', ''C'', ''D'', ''E''] = Inr (next_level, cs)
      \<and> length next_level = 3)
   \<and> (\<exists>r. merge_documents echo_env [''A'', ''B'', ''C'', ''D'', ''E''] = Inr r
      \<and> rounds r = 3 \<and> length (final_level r) = 1)"
proof -
  have nf: "\<forall>k j text. \<not> isl (summarize echo_env k j text False)"
    by (simp add: echo_env_def)
  have "ceillog2 5 = 3"
    by (rule ceillog2_eqI) simp_all
  then have "nat \<lceil>log 2 (real (length [''A'', ''B'', ''C'', ''D'', ''E'']))\<rceil> = 3"
    by (simp add: ceillog2_def)
  moreover have "\<lceil>real (length [''A'', ''B'', ''C'', ''D'', ''E'']) / 2\<rceil> = 3"
    by simp
  ultimately show ?thesis
    using merge_reduction_size_law
      [of "[''A'', ''B'', ''C'', ''D'', ''E'']" echo_env 0 "[''A'', ''B'', ''C'', ''D'', ''E'']"] nf
    by simp
qed

lemma pair_text_eq:
  "pair_text current_level j =
     current_level ! (2 * j) @ [CHR 0x0A, CHR 0x0A] @ current_level ! (2 * j + 1)"
  by (simp add: pair_text_def pair_at_def)

lemma set_summaries_outcomes:
  "set (summaries (outcomes env k current_level)) =
     {s. \<exists>j < length current_level div 2. summarize env k j (pair_text current_level j) False = Inr s}"
proof -
  have "\<And>s j. j < length current_level div 2 \<Longrightarrow>
      summarize env k j (pair_text current_level j) False = Inr s \<Longrightarrow>
      Inr s \<in> set (outcomes env k current_level)"
    unfolding outcomes_def by (metis (no_types, lifting) atLeastLessThan_iff imageI le0 list.set_map set_upt)
  then show ?thesis
    by (auto simp: set_summaries) (auto simp: outcomes_def)
qed

lemma set_completed:
  "set (summaries (map snd (as_completed t (futures_of env k current_level)))) =
     set (summaries (outcomes env k current_level))"
  using mset_eq_setD [OF mset_completed [of t "futures_of env k current_level"]]
  by (simp only: map_snd_futures)

lemma set_round_next:
  "set (round_next env k current_level) =
     {s. \<exists>j < length current_level div 2. summarize env k j (pair_text current_level j) False = Inr s}
       \<union> (if odd (length current_level) then {last current_level} else {})"
  by (simp add: round_next_def set_completed set_summaries_outcomes)


text \<open>
  C8. In a round whose level has odd length, the last element of the level is appended to the
  next level as it is, after the summaries; the calls of the round are those of the pairs at
  positions \<open>(2j, 2j + 1)\<close>, none of which contains the last position.
\<close>

theorem odd_tail_carry_through:
  assumes "odd (length current_level)"
  shows "\<exists>merged. merge_round env k current_level =
      Inr (merged @ [last current_level],
           map (\<lambda>j. \<lparr>call_text = current_level ! (2 * j) @ [CHR 0x0A, CHR 0x0A]
                            @ current_level ! (2 * j + 1),
                       call_is_final = False\<rparr>)
             [0..<length current_level div 2])
    \<and> set merged \<subseteq> {s. \<exists>j < length current_level div 2.
          summarize env k j (current_level ! (2 * j) @ [CHR 0x0A, CHR 0x0A]
            @ current_level ! (2 * j + 1)) False = Inr s}"
proof -
  let ?merged = "summaries (map snd (as_completed (finish env k) (futures_of env k current_level)))"
  have "round_next env k current_level = ?merged @ [last current_level]"
    using assms by (simp add: round_next_def)
  moreover have "set ?merged \<subseteq> {s. \<exists>j < length current_level div 2.
      summarize env k j (pair_text current_level j) False = Inr s}"
    by (simp only: set_completed set_summaries_outcomes)
  ultimately show ?thesis
    by (simp add: merge_round_closed round_calls_eq pair_text_eq)
qed


theorem odd_tail_carry_through_witness:
  "\<exists>merged. merge_round echo_env 0 [''A'', ''B'', ''C''] =
      Inr (merged @ [''C''], [\<lparr>call_text = ''A'' @ [CHR 0x0A, CHR 0x0A] @ ''B'', call_is_final = False\<rparr>])"
  using odd_tail_carry_through [of "[''A'', ''B'', ''C'']" echo_env 0]
  by auto



definition unavailable_env :: env where
  "unavailable_env = \<lparr>summarize = (\<lambda>k i text is_final. Inl RuntimeError), finish = (\<lambda>k i. i),
     SHUFFLE_CHUNKS = False, shuffle_key = (\<lambda>i. i)\<rparr>"

definition first_pair_fails_env :: env where
  "first_pair_fails_env =
     \<lparr>summarize = (\<lambda>k i text is_final. if i = 0 then Inl RuntimeError else Inr ''S''),
      finish = (\<lambda>k i. i), SHUFFLE_CHUNKS = False, shuffle_key = (\<lambda>i. i)\<rparr>"

lemma round_next_all_fail:
  assumes "\<forall>j < length current_level div 2. isl (summarize env k j (pair_text current_level j) False)"
  shows "round_next env k current_level = (if odd (length current_level) then [last current_level] else [])"
proof -
  have "\<forall>r \<in> set (outcomes env k current_level). isl r"
    using assms by (auto simp: outcomes_def)
  then have "summaries (outcomes env k current_level) = []"
    by (rule summaries_all_fail)
  then have "set (summaries (map snd (as_completed (finish env k) (futures_of env k current_level)))) = {}"
    by (simp only: set_completed) simp
  then show ?thesis
    by (simp add: round_next_def)
qed

text \<open>
  C3, as the claim states it, fails when the level has odd length: with a backend that fails at
  every call and the pool \<open>A, B, C\<close>, the only pair fails, the next level is \<open>[C]\<close> and
  \<open>merge_documents\<close> returns \<open>C\<close>, not the empty string.
\<close>

theorem total_unavailability_counterexample:
  "summarize unavailable_env 0 0 (''A'' @ [CHR 0x0A, CHR 0x0A] @ ''B'') False = Inl RuntimeError
   \<and> merge_round unavailable_env 0 [''A'', ''B'', ''C''] =
       Inr ([''C''], [\<lparr>call_text = ''A'' @ [CHR 0x0A, CHR 0x0A] @ ''B'', call_is_final = False\<rparr>])
   \<and> merge_documents unavailable_env [''A'', ''B'', ''C''] =
       Inr \<lparr>returned = ''C'', rounds = 1, final_level = [''C''],
            calls = [\<lparr>call_text = ''A'' @ [CHR 0x0A, CHR 0x0A] @ ''B'', call_is_final = False\<rparr>]\<rparr>"
  by code_simp

text \<open>
  The levels of a run. \<open>initial_level\<close> is the level that the loop of \<open>merge_documents\<close> starts
  with, and \<open>level_at env start k\<close> is the level at the beginning of round \<open>k\<close> of the loop
  started on \<open>start\<close>. The run reaches round \<open>k\<close> when every earlier level has more than one
  element.
\<close>

definition initial_level :: "env \<Rightarrow> string list \<Rightarrow> string list" where
  "initial_level env documents =
     (if SHUFFLE_CHUNKS env then random_shuffle env documents else documents)"

fun level_at :: "env \<Rightarrow> string list \<Rightarrow> nat \<Rightarrow> string list" where
  "level_at env start 0 = start"
| "level_at env start (Suc k) =
     (case merge_round env k (level_at env start k) of
        Inl e \<Rightarrow> []
      | Inr (next_level, cs) \<Rightarrow> next_level)"

definition second_round_fails_env :: env where
  "second_round_fails_env =
     \<lparr>summarize = (\<lambda>k i text is_final. if k = 1 then Inl RuntimeError else Inr text),
      finish = (\<lambda>k i. i), SHUFFLE_CHUNKS = False, shuffle_key = (\<lambda>i. i)\<rparr>"

lemma level_at_Suc: "level_at env start (Suc k) = round_next env k (level_at env start k)"
  by (simp add: merge_round_closed)

lemma merge_loop_reaches:
  "\<forall>i < k. 1 < length (level_at env start i) \<Longrightarrow>
   \<exists>made. merge_loop env 0 start [] = merge_loop env k (level_at env start k) made"
proof (induction k)
  case 0
  have "merge_loop env 0 start [] = merge_loop env 0 (level_at env start 0) []"
    by simp
  then show ?case
    by blast
next
  case (Suc k)
  then obtain made where
    run: "merge_loop env 0 start [] = merge_loop env k (level_at env start k) made"
    by auto
  have big: "1 < length (level_at env start k)"
    using Suc.prems by simp
  have "merge_loop env k (level_at env start k) made
      = merge_loop env (Suc k) (level_at env start (Suc k))
          (made @ round_calls env k (level_at env start k))"
    by (simp only: merge_loop_step [OF big] level_at_Suc)
  with run show ?case
    by (intro exI [of _ "made @ round_calls env k (level_at env start k)"]) simp
qed

text \<open>
  C3, amended. When every call of a round fails, the next level holds nothing but the carried
  odd tail: it is empty when the level has even length, and is the last element alone when the
  length is odd. The loop ends after that round. Whatever round of a run this is, the first or
  a later one, \<open>merge_documents\<close> then returns the empty string when that level has even length
  and its last element when the length is odd; no exception reaches the caller.
\<close>

theorem total_unavailability:
  assumes "\<forall>j < length current_level div 2.
      isl (summarize env k j (pair_text current_level j) False)"
    and "1 < length current_level"
  shows "\<exists>cs. merge_round env k current_level =
        Inr (if odd (length current_level) then [last current_level] else [], cs)
    \<and> merge_loop env k current_level made =
        Inr (Suc k, if odd (length current_level) then [last current_level] else [], made @ cs)
    \<and> (current_level = level_at env (initial_level env documents) k
        \<and> (\<forall>i < k. 1 < length (level_at env (initial_level env documents) i)) \<longrightarrow>
        (\<exists>r. merge_documents env documents = Inr r
          \<and> returned r = (if odd (length current_level) then last current_level else [])
          \<and> rounds r = Suc k
          \<and> final_level r = (if odd (length current_level) then [last current_level] else [])))"
proof -
  let ?tail = "if odd (length current_level) then [last current_level] else []"
  let ?cs = "round_calls env k current_level"
  let ?start = "initial_level env documents"
  have next_level: "round_next env k current_level = ?tail"
    using assms(1) by (rule round_next_all_fail)
  have round: "merge_round env k current_level = Inr (?tail, ?cs)"
    by (simp only: merge_round_closed next_level)
  have loop: "merge_loop env k current_level m = Inr (Suc k, ?tail, m @ ?cs)" for m
  proof -
    have "merge_loop env k current_level m = merge_loop env (Suc k) ?tail (m @ ?cs)"
      by (simp only: merge_loop_step [OF assms(2)] next_level)
    also have "\<dots> = Inr (Suc k, ?tail, m @ ?cs)"
      by (rule merge_loop_stop) simp
    finally show ?thesis .
  qed
  have "\<exists>r. merge_documents env documents = Inr r
          \<and> returned r = (if odd (length current_level) then last current_level else [])
          \<and> rounds r = Suc k \<and> final_level r = ?tail"
    if at: "current_level = level_at env ?start k"
      and reach: "\<forall>i < k. 1 < length (level_at env ?start i)"
  proof -
    have "1 < length (level_at env ?start 0)"
    proof (cases k)
      case 0
      with at assms(2) show ?thesis by simp
    next
      case (Suc k')
      with reach show ?thesis by blast
    qed
    then have "1 < length documents"
      by (simp add: initial_level_def length_random_shuffle split: if_splits)
    then have big: "documents \<noteq> []" "length documents \<noteq> 1"
      by auto
    obtain made0 where "merge_loop env 0 ?start [] = merge_loop env k (level_at env ?start k) made0"
      using merge_loop_reaches [OF reach] by blast
    then have run: "merge_loop env 0
        (if SHUFFLE_CHUNKS env then random_shuffle env documents else documents) []
        = Inr (Suc k, ?tail, made0 @ ?cs)"
      using loop [of made0] at by (simp add: initial_level_def)
    show ?thesis
      unfolding merge_documents_def using big
      by (simp only: run if_False) (simp add: py_get_def)
  qed
  with round loop [of made] show ?thesis
    by blast
qed

theorem total_unavailability_witness:
  "merge_round second_round_fails_env 0 [''A'', ''B'', ''C'', ''D'']
     = Inr ([''A'' @ [CHR 0x0A, CHR 0x0A] @ ''B'', ''C'' @ [CHR 0x0A, CHR 0x0A] @ ''D''],
            [\<lparr>call_text = ''A'' @ [CHR 0x0A, CHR 0x0A] @ ''B'', call_is_final = False\<rparr>,
             \<lparr>call_text = ''C'' @ [CHR 0x0A, CHR 0x0A] @ ''D'', call_is_final = False\<rparr>])
   \<and> (\<exists>r. merge_documents second_round_fails_env [''A'', ''B'', ''C'', ''D''] = Inr r
         \<and> returned r = [] \<and> rounds r = 2 \<and> final_level r = [])"
proof -
  let ?docs = "[''A'', ''B'', ''C'', ''D'']"
  let ?level = "[''A'' @ [CHR 0x0A, CHR 0x0A] @ ''B'', ''C'' @ [CHR 0x0A, CHR 0x0A] @ ''D'']"
  have first: "merge_round second_round_fails_env 0 ?docs
     = Inr (?level,
            [\<lparr>call_text = ''A'' @ [CHR 0x0A, CHR 0x0A] @ ''B'', call_is_final = False\<rparr>,
             \<lparr>call_text = ''C'' @ [CHR 0x0A, CHR 0x0A] @ ''D'', call_is_final = False\<rparr>])"
    by code_simp
  have start: "initial_level second_round_fails_env ?docs = ?docs"
    by (simp add: initial_level_def second_round_fails_env_def)
  have at: "?level = level_at second_round_fails_env (initial_level second_round_fails_env ?docs) 1"
    unfolding start by (simp add: first)
  have reach: "\<forall>i < 1. 1 < length (level_at second_round_fails_env
      (initial_level second_round_fails_env ?docs) i)"
    unfolding start by simp
  have fails: "\<forall>j < length ?level div 2.
      isl (summarize second_round_fails_env 1 j (pair_text ?level j) False)"
    by (simp add: second_round_fails_env_def)
  have big: "1 < length ?level"
    by simp
  from total_unavailability [OF fails big, of "[]" ?docs] at reach
  obtain r where r: "merge_documents second_round_fails_env ?docs = Inr r"
    and "returned r = (if odd (length ?level) then last ?level else [])"
    and "rounds r = Suc 1"
    and "final_level r = (if odd (length ?level) then [last ?level] else [])"
    by blast
  then have "returned r = [] \<and> rounds r = 2 \<and> final_level r = []"
    by simp
  with first r show ?thesis
    by blast
qed

lemma length_filter_others:
  assumes "j0 < m"
  shows "Suc (length (filter (\<lambda>j. j \<noteq> j0) [0..<m])) = m"
proof -
  have "length (filter (\<lambda>j. j \<noteq> j0) [0..<m]) = card ({j. j \<noteq> j0} \<inter> set [0..<m])"
    by (rule distinct_length_filter) simp
  also have "{j. j \<noteq> j0} \<inter> set [0..<m] = {0..<m} - {j0}"
    by auto
  also have "card ({0..<m} - {j0}) = m - 1"
    using assms by simp
  finally show ?thesis
    using assms by simp
qed

lemma length_summaries_one_failure:
  assumes "j0 < length current_level div 2"
    and "isl (summarize env k j0 (pair_text current_level j0) False)"
    and "\<forall>j < length current_level div 2. j \<noteq> j0 \<longrightarrow>
      \<not> isl (summarize env k j (pair_text current_level j) False)"
  shows "Suc (length (summaries (outcomes env k current_level))) = length current_level div 2"
proof -
  let ?g = "\<lambda>j. summarize env k j (pair_text current_level j) False"
  let ?m = "length current_level div 2"
  have "filter (\<lambda>j. \<not> isl (?g j)) [0..<?m] = filter (\<lambda>j. j \<noteq> j0) [0..<?m]"
    using assms by (intro filter_cong) auto
  then have "length (summaries (outcomes env k current_level))
      = length (filter (\<lambda>j. j \<noteq> j0) [0..<?m])"
    by (simp add: summaries_def outcomes_def filter_map comp_def)
  then show ?thesis
    using length_filter_others [OF assms(1)] by simp
qed

text \<open>
  C6, as the claim states it, fails when a text of the failed pair also occurs elsewhere: in the
  pool \<open>A, B, C, D, A\<close> the call for the pair \<open>(A, B)\<close> fails and the call for \<open>(C, D)\<close>
  returns \<open>S\<close>; the next level is \<open>[S, A]\<close>, which contains the text \<open>A\<close> of the failed pair.
\<close>

theorem pair_failure_isolation_counterexample:
  "summarize first_pair_fails_env 0 0 (''A'' @ [CHR 0x0A, CHR 0x0A] @ ''B'') False = Inl RuntimeError
   \<and> summarize first_pair_fails_env 0 1 (''C'' @ [CHR 0x0A, CHR 0x0A] @ ''D'') False = Inr ''S''
   \<and> merge_round first_pair_fails_env 0 [''A'', ''B'', ''C'', ''D'', ''A''] =
       Inr ([''S'', ''A''],
            [\<lparr>call_text = ''A'' @ [CHR 0x0A, CHR 0x0A] @ ''B'', call_is_final = False\<rparr>,
             \<lparr>call_text = ''C'' @ [CHR 0x0A, CHR 0x0A] @ ''D'', call_is_final = False\<rparr>])
   \<and> ''A'' \<in> set [''S'', ''A'']"
  by code_simp

text \<open>
  C6, amended. In a round in which exactly one pair's call raises, the next level has one
  element fewer than \<open>ceil(n / 2)\<close>, the size it has when no call fails, and the failed pair
  contributes nothing to it: every element of the next level is the summary returned for
  another pair or the carried odd tail. A text of the failed pair occurs in the next level only
  when it equals one of those. No exception reaches the caller of \<open>merge_documents\<close>.
\<close>

theorem pair_failure_isolation:
  assumes "j0 < length current_level div 2"
    and "isl (summarize env k j0 (pair_text current_level j0) False)"
    and "\<forall>j < length current_level div 2. j \<noteq> j0 \<longrightarrow>
      \<not> isl (summarize env k j (pair_text current_level j) False)"
  shows "\<exists>next_level cs. merge_round env k current_level = Inr (next_level, cs)
    \<and> int (length next_level) = \<lceil>real (length current_level) / 2\<rceil> - 1
    \<and> set next_level =
        {s. \<exists>j < length current_level div 2. j \<noteq> j0
              \<and> summarize env k j (pair_text current_level j) False = Inr s}
        \<union> (if odd (length current_level) then {last current_level} else {})
    \<and> (\<exists>r. merge_documents env documents = Inr r)"
proof -
  let ?next = "round_next env k current_level"
  have "Suc (length (summaries (outcomes env k current_level))) = length current_level div 2"
    using assms by (rule length_summaries_one_failure)
  then have "Suc (length ?next) = (length current_level + 1) div 2"
    by (cases "odd (length current_level)") (auto simp: length_round_next elim: oddE)
  moreover have "int ((length current_level + 1) div 2) = \<lceil>real (length current_level) / 2\<rceil>"
    by linarith
  ultimately have len: "int (length ?next) = \<lceil>real (length current_level) / 2\<rceil> - 1"
    by linarith
  have "\<And>j s. summarize env k j (pair_text current_level j) False = Inr s \<Longrightarrow> j \<noteq> j0"
    using assms(2) by auto
  then have "{s. \<exists>j < length current_level div 2.
        summarize env k j (pair_text current_level j) False = Inr s}
      = {s. \<exists>j < length current_level div 2. j \<noteq> j0
          \<and> summarize env k j (pair_text current_level j) False = Inr s}"
    by blast
  then have elems: "set ?next =
        {s. \<exists>j < length current_level div 2. j \<noteq> j0
              \<and> summarize env k j (pair_text current_level j) False = Inr s}
        \<union> (if odd (length current_level) then {last current_level} else {})"
    by (simp only: set_round_next)
  from len elems merge_documents_returns [of env documents] show ?thesis
    by (simp only: merge_round_closed) blast
qed

theorem pair_failure_isolation_witness:
  "\<exists>next_level cs. merge_round first_pair_fails_env 0 [''A'', ''B'', ''C'', ''D'', ''E'']
       = Inr (next_level, cs)
     \<and> length next_level = 2 \<and> set next_level = {''S'', ''E''}"
proof -
  let ?level = "[''A'', ''B'', ''C'', ''D'', ''E'']"
  have a: "0 < length ?level div 2"
    by simp
  have b: "isl (summarize first_pair_fails_env 0 0 (pair_text ?level 0) False)"
    by (simp add: first_pair_fails_env_def)
  have c: "\<forall>j < length ?level div 2. j \<noteq> 0 \<longrightarrow>
      \<not> isl (summarize first_pair_fails_env 0 j (pair_text ?level j) False)"
    by (simp add: first_pair_fails_env_def)
  have "{s. \<exists>j < length ?level div 2. j \<noteq> 0
        \<and> summarize first_pair_fails_env 0 j (pair_text ?level j) False = Inr s} = {''S''}"
    by (auto simp: first_pair_fails_env_def)
  moreover have "\<lceil>real (length ?level) / 2\<rceil> - 1 = 2"
    by simp
  ultimately show ?thesis
    using pair_failure_isolation [OF a b c, of ?level]
    by auto
qed

section \<open>The chunker (chunker.py)\<close>

subsection \<open>Python strings\<close>

text \<open>
  A Python \<open>str\<close> is modelled as a \<open>string\<close>, each \<open>char\<close> standing for the code point of the
  same number. \<open>isspace\<close> holds of the code points below 256 that \<open>str.strip\<close> removes and that
  \<open>\s\<close> matches in a \<open>str\<close> pattern.
\<close>

definition isspace :: "char \<Rightarrow> bool" where
  "isspace c = ((of_char c :: nat) \<in> {9, 10, 11, 12, 13, 28, 29, 30, 31, 32, 133, 160})"

definition strip :: "string \<Rightarrow> string" where
  "strip s = rev (dropWhile isspace (rev (dropWhile isspace s)))"

text \<open>\<open>re.sub(r"\s+", " ", s)\<close>: every maximal run of whitespace becomes one space.\<close>

function collapse_whitespace :: "string \<Rightarrow> string" where
  "collapse_whitespace [] = []"
| "collapse_whitespace (c # cs) =
     (if isspace c then CHR '' '' # collapse_whitespace (dropWhile isspace cs)
      else c # collapse_whitespace cs)"
  by pat_completeness auto
termination
  by (relation "measure length") (auto simp: length_dropWhile_le less_Suc_eq_le)

text \<open>
  A bound of a slice \<open>xs[a:b]\<close>, brought into \<open>0..len(xs)\<close>: a negative bound counts from the
  end.
\<close>

definition slice_index :: "nat \<Rightarrow> int \<Rightarrow> nat" where
  "slice_index n i = (if i < 0 then nat (i + int n) else min (nat i) n)"

definition py_slice :: "'a list \<Rightarrow> int \<Rightarrow> int \<Rightarrow> 'a list" where
  "py_slice xs a b =
     (let lo = slice_index (length xs) a; hi = slice_index (length xs) b
      in take (hi - lo) (drop lo xs))"

text \<open>
  \<open>text.rfind(sub, start, stop)\<close>: the highest position \<open>i\<close> with \<open>start \<le> i\<close> and
  \<open>i + len(sub) \<le> stop\<close> at which \<open>sub\<close> occurs, the bounds adjusted as for a slice (the
  start is not cut down to the length); \<open>-1\<close> when there is none.
\<close>

definition rfind :: "string \<Rightarrow> string \<Rightarrow> int \<Rightarrow> int \<Rightarrow> int" where
  "rfind text sub start stop =
     (let n = int (length text);
          hi = (if stop > n then n else if stop < 0 then max 0 (stop + n) else stop);
          lo = (if start < 0 then max 0 (start + n) else start)
      in case find (\<lambda>i. take (length sub) (drop (nat i) text) = sub)
                (rev [lo..hi - int (length sub)]) of
           None \<Rightarrow> - 1
         | Some i \<Rightarrow> i)"

subsection \<open>SmartChunker\<close>

text \<open>
  The fields of a \<open>SmartChunker\<close>. The optional \<open>chonkie\<close> library is not part of the
  repository: the model is the chunker built when it cannot be imported (\<open>self.chonkie\<close> is
  \<open>None\<close>), whose \<open>chunk_text\<close> calls \<open>_split_text_manual\<close>.
\<close>

record chunker =
  max_chunk_size :: int
  overlap :: int

definition separators :: "string list" where
  "separators = [[CHR 0x0A, CHR 0x0A], [CHR 0x0A], ''. '', ''! '', ''? '', ''; '', '', '', '' '']"

text \<open>
  The search for the best break position: the first separator, in the order of the list,
  found after 60 percent of the window; the end of the window when there is none. The source
  compares \<open>pos > start + max_chunk_size * 0.6\<close> in floating point; the model compares the
  exact values, \<open>5 * pos > 5 * start + 3 * max_chunk_size\<close>, which is the same for sizes that a
  double represents with a margin (below \<open>2 ^ 45\<close>).
\<close>

fun find_break :: "chunker \<Rightarrow> string \<Rightarrow> int \<Rightarrow> int \<Rightarrow> string list \<Rightarrow> int" where
  "find_break cfg text start stop [] = stop"
| "find_break cfg text start stop (separator # rest) =
     (let pos = rfind text separator start stop
      in if pos \<noteq> - 1 \<and> 5 * pos > 5 * start + 3 * max_chunk_size cfg
         then pos + int (length separator)
         else find_break cfg text start stop rest)"

text \<open>The cursor after a chunk that ends at \<open>best_break_pos\<close>.\<close>

definition advance :: "chunker \<Rightarrow> int \<Rightarrow> int" where
  "advance cfg best_break_pos =
     (if best_break_pos > overlap cfg then best_break_pos - overlap cfg else best_break_pos)"

text \<open>
  The \<open>while start < text_length\<close> loop of \<open>_split_text_manual\<close>. Nothing in the source bounds
  the number of iterations, so the loop takes fuel, one unit for each test of the loop
  condition: \<open>None\<close> means that the fuel did not suffice.
\<close>

fun split_loop :: "nat \<Rightarrow> chunker \<Rightarrow> string \<Rightarrow> int \<Rightarrow> string list \<Rightarrow> string list option" where
  "split_loop 0 cfg text start chunks = None"
| "split_loop (Suc fuel) cfg text start chunks =
     (if start < int (length text) then
        (let stop = min (start + max_chunk_size cfg) (int (length text))
         in if stop = int (length text) then Some (chunks @ [py_slice text start stop])
            else (let best_break_pos = find_break cfg text start stop separators
                  in split_loop fuel cfg text (advance cfg best_break_pos)
                       (chunks @ [py_slice text start best_break_pos])))
      else Some chunks)"

definition split_text_manual :: "nat \<Rightarrow> chunker \<Rightarrow> string \<Rightarrow> string list option" where
  "split_text_manual fuel cfg text = split_loop fuel cfg text 0 []"

definition chunk_text :: "nat \<Rightarrow> chunker \<Rightarrow> string \<Rightarrow> string list option" where
  "chunk_text fuel cfg text = split_text_manual fuel cfg (collapse_whitespace (strip text))"

text \<open>\<open>_filter_chunks\<close>.\<close>

definition filter_chunks :: "string list \<Rightarrow> exn + string list" where
  "filter_chunks chunks =
     (if length chunks \<le> 3 then Inr chunks
      else
        (case py_get chunks 0 of
           Inl e \<Rightarrow> Inl e
         | Inr first_chunk \<Rightarrow>
             (case py_get chunks (- 2) of
                Inl e \<Rightarrow> Inl e
              | Inr second_to_last_chunk \<Rightarrow>
                  (let middle_index = int (length chunks) div 2
                   in case py_get chunks middle_index of
                        Inl e \<Rightarrow> Inl e
                      | Inr middle_chunk \<Rightarrow>
                          Inr [first_chunk, middle_chunk, second_to_last_chunk]))))"

text \<open>
  The loop of \<open>chunk_document\<close> over the raw chunks; the state is \<open>merged_chunks\<close> and
  \<open>current_chunk\<close>.
\<close>

fun coalesce ::
  "chunker \<Rightarrow> int \<Rightarrow> string list \<Rightarrow> string list \<Rightarrow> string \<Rightarrow> string list \<times> string" where
  "coalesce cfg min_chunk_size [] merged_chunks current_chunk = (merged_chunks, current_chunk)"
| "coalesce cfg min_chunk_size (raw # rest) merged_chunks current_chunk =
     (let chunk = strip raw
      in if chunk = [] then coalesce cfg min_chunk_size rest merged_chunks current_chunk
         else if int (length current_chunk) + int (length chunk) \<le> max_chunk_size cfg
         then coalesce cfg min_chunk_size rest merged_chunks
                (if current_chunk \<noteq> [] then current_chunk @ '' '' @ chunk else chunk)
         else coalesce cfg min_chunk_size rest
                (if current_chunk \<noteq> [] \<and> int (length current_chunk) \<ge> min_chunk_size
                 then merged_chunks @ [current_chunk] else merged_chunks)
                chunk)"

definition chunk_document :: "nat \<Rightarrow> chunker \<Rightarrow> string \<Rightarrow> int \<Rightarrow> (exn + string list) option" where
  "chunk_document fuel cfg content min_chunk_size =
     (case chunk_text fuel cfg content of
        None \<Rightarrow> None
      | Some chunks \<Rightarrow>
          (case coalesce cfg min_chunk_size chunks [] [] of
             (merged_chunks, current_chunk) \<Rightarrow>
               Some (filter_chunks
                 (if current_chunk \<noteq> [] \<and> int (length current_chunk) \<ge> min_chunk_size
                  then merged_chunks @ [current_chunk] else merged_chunks))))"

lemma py_get_second_to_last:
  "2 \<le> length xs \<Longrightarrow> py_get xs (- 2) = Inr (xs ! (length xs - 2))"
  by (simp add: py_get_def nat_diff_distrib')

text \<open>
  C5. For a list of more than three chunks \<open>_filter_chunks\<close> returns the first chunk, the chunk
  at index \<open>n div 2\<close> and the chunk before the last, in this order; a list of at most three
  chunks is returned as it is.
\<close>

theorem filter_chunks_policy:
  "(3 < length chunks \<longrightarrow>
      filter_chunks chunks =
        Inr [chunks ! 0, chunks ! (length chunks div 2), chunks ! (length chunks - 2)])
   \<and> (length chunks \<le> 3 \<longrightarrow> filter_chunks chunks = Inr chunks)"
proof (intro conjI impI)
  assume big: "3 < length chunks"
  have first: "py_get chunks 0 = Inr (chunks ! 0)"
    using big by (auto simp: py_get_def)
  have penultimate: "py_get chunks (- 2) = Inr (chunks ! (length chunks - 2))"
    using big by (simp add: py_get_second_to_last)
  have "int (length chunks) div 2 = int (length chunks div 2)"
    by simp
  moreover have "length chunks div 2 < length chunks"
    using big by simp
  ultimately have middle:
    "py_get chunks (int (length chunks) div 2) = Inr (chunks ! (length chunks div 2))"
    using py_get_nth [of "length chunks div 2" chunks] by simp
  show "filter_chunks chunks =
      Inr [chunks ! 0, chunks ! (length chunks div 2), chunks ! (length chunks - 2)]"
    using big by (simp add: filter_chunks_def first penultimate middle)
next
  assume "length chunks \<le> 3"
  then show "filter_chunks chunks = Inr chunks"
    by (simp add: filter_chunks_def)
qed

theorem filter_chunks_policy_witness:
  "filter_chunks [''a'', ''b'', ''c'', ''d'', ''e''] = Inr [''a'', ''c'', ''d'']
   \<and> filter_chunks [''a'', ''b''] = Inr [''a'', ''b'']"
  using filter_chunks_policy [of "[''a'', ''b'', ''c'', ''d'', ''e'']"]
    filter_chunks_policy [of "[''a'', ''b'']"]
  by simp

subsection \<open>Facts about slices and searches\<close>

lemma find_in_set: "find P xs = Some x \<Longrightarrow> x \<in> set xs"
  by (induction xs) (auto split: if_splits)

lemma rfind_bounds:
  assumes "rfind text sub start stop \<noteq> - 1"
    and "0 \<le> start" and "0 \<le> stop" and "stop \<le> int (length text)"
  shows "start \<le> rfind text sub start stop
    \<and> rfind text sub start stop + int (length sub) \<le> stop"
proof -
  let ?P = "\<lambda>i. take (length sub) (drop (nat i) text) = sub"
  let ?cands = "rev [start..stop - int (length sub)]"
  have eq: "rfind text sub start stop = (case find ?P ?cands of None \<Rightarrow> - 1 | Some i \<Rightarrow> i)"
    using assms(2-4) by (simp add: rfind_def Let_def)
  with assms(1) obtain i where i: "find ?P ?cands = Some i"
    by (cases "find ?P ?cands") auto
  then have "i \<in> set ?cands"
    by (rule find_in_set)
  then have "start \<le> i \<and> i + int (length sub) \<le> stop"
    by auto
  with eq i show ?thesis
    by simp
qed

lemma find_break_bounds:
  assumes "0 \<le> start" and "start \<le> stop" and "stop \<le> int (length text)"
  shows "start \<le> find_break cfg text start stop seps
    \<and> find_break cfg text start stop seps \<le> stop"
proof (induction seps)
  case Nil
  show ?case using assms by simp
next
  case (Cons separator rest)
  show ?case
  proof (cases "rfind text separator start stop \<noteq> - 1
      \<and> 5 * rfind text separator start stop > 5 * start + 3 * max_chunk_size cfg")
    case True
    then have "start \<le> rfind text separator start stop
        \<and> rfind text separator start stop + int (length separator) \<le> stop"
      using rfind_bounds [of "text" separator start stop] assms by simp
    with True show ?thesis
      by (simp add: Let_def)
  next
    case False
    with Cons show ?thesis
      by (auto simp: Let_def)
  qed
qed

lemma find_break_far:
  "find_break cfg text start stop seps = stop
   \<or> 5 * find_break cfg text start stop seps > 5 * start + 3 * max_chunk_size cfg"
  by (induction seps) (auto simp: Let_def)


lemma length_py_slice_le:
  assumes "0 \<le> a" and "0 \<le> b"
  shows "length (py_slice xs a b) \<le> nat (b - a)"
proof -
  let ?lo = "slice_index (length xs) a" and ?hi = "slice_index (length xs) b"
  have lo: "?lo = min (nat a) (length xs)" and hi: "?hi = min (nat b) (length xs)"
    using assms by (simp_all add: slice_index_def)
  have "length (py_slice xs a b) \<le> ?hi - ?lo"
    by (simp add: py_slice_def Let_def)
  also have "?hi - ?lo \<le> nat b - nat a"
    unfolding lo hi by linarith
  also have "nat b - nat a = nat (b - a)"
    using assms by linarith
  finally show ?thesis .
qed

lemma advance_nonneg: "0 \<le> b \<Longrightarrow> 0 \<le> advance cfg b"
  by (simp add: advance_def)

text \<open>More fuel does not change a result.\<close>

lemma split_loop_mono:
  "split_loop fuel cfg text start chunks = Some out \<Longrightarrow> fuel \<le> fuel' \<Longrightarrow>
   split_loop fuel' cfg text start chunks = Some out"
proof (induction fuel arbitrary: fuel' start chunks)
  case 0
  then show ?case by simp
next
  case (Suc fuel)
  from Suc.prems(2) obtain f where f: "fuel' = Suc f" and le: "fuel \<le> f"
    by (cases fuel') auto
  show ?case
    using Suc.prems(1) Suc.IH [OF _ le] unfolding f
    by (auto simp: Let_def split: if_splits)
qed

text \<open>The end of the window that starts at the cursor, and the break position chosen in it.\<close>

definition window_end :: "chunker \<Rightarrow> string \<Rightarrow> int \<Rightarrow> int" where
  "window_end cfg text start = min (start + max_chunk_size cfg) (int (length text))"

definition break_at :: "chunker \<Rightarrow> string \<Rightarrow> int \<Rightarrow> int" where
  "break_at cfg text start = find_break cfg text start (window_end cfg text start) separators"

lemma split_loop_done:
  "\<not> start < int (length text) \<Longrightarrow> split_loop (Suc fuel) cfg text start chunks = Some chunks"
  by simp

lemma split_loop_last:
  "start < int (length text) \<Longrightarrow> window_end cfg text start = int (length text) \<Longrightarrow>
   split_loop (Suc fuel) cfg text start chunks
     = Some (chunks @ [py_slice text start (int (length text))])"
  by (auto simp: split_loop.simps window_end_def Let_def min_def split: if_splits)

lemma split_loop_more:
  "start < int (length text) \<Longrightarrow> window_end cfg text start \<noteq> int (length text) \<Longrightarrow>
   split_loop (Suc fuel) cfg text start chunks
     = split_loop fuel cfg text (advance cfg (break_at cfg text start))
         (chunks @ [py_slice text start (break_at cfg text start)])"
  by (auto simp: split_loop.simps window_end_def break_at_def Let_def min_def split: if_splits)

declare split_loop.simps [simp del]

lemma break_at_bounds:
  assumes "0 \<le> start" and "start < int (length text)" and "0 \<le> max_chunk_size cfg"
  shows "start \<le> break_at cfg text start"
    and "break_at cfg text start \<le> window_end cfg text start"
    and "window_end cfg text start \<le> int (length text)"
    and "window_end cfg text start \<le> start + max_chunk_size cfg"
proof -
  have w: "start \<le> window_end cfg text start" "window_end cfg text start \<le> int (length text)"
    using assms by (auto simp: window_end_def)
  from find_break_bounds [OF assms(1) w, of cfg separators]
  show "start \<le> break_at cfg text start"
    and "break_at cfg text start \<le> window_end cfg text start"
    by (simp_all add: break_at_def)
  show "window_end cfg text start \<le> int (length text)"
    by (rule w(2))
  show "window_end cfg text start \<le> start + max_chunk_size cfg"
    by (simp add: window_end_def)
qed

lemma split_loop_bounded:
  assumes "0 \<le> max_chunk_size cfg"
  shows "split_loop fuel cfg text start chunks = Some out \<Longrightarrow> 0 \<le> start \<Longrightarrow>
    \<forall>c \<in> set chunks. int (length c) \<le> max_chunk_size cfg \<Longrightarrow>
    \<forall>c \<in> set out. int (length c) \<le> max_chunk_size cfg"
proof (induction fuel arbitrary: start chunks)
  case 0
  then show ?case by (simp add: split_loop.simps)
next
  case (Suc fuel)
  let ?n = "int (length text)"
  let ?b = "break_at cfg text start"
  show ?case
  proof (cases "start < ?n")
    case False
    with Suc.prems show ?thesis by (simp add: split_loop_done)
  next
    case True
    note b = break_at_bounds [OF Suc.prems(2) True assms]
    show ?thesis
    proof (cases "window_end cfg text start = ?n")
      case last: True
      have "length (py_slice text start ?n) \<le> nat (?n - start)"
        using Suc.prems(2) True by (intro length_py_slice_le) auto
      then have "int (length (py_slice text start ?n)) \<le> max_chunk_size cfg"
        using b(4) last True by linarith
      moreover have "out = chunks @ [py_slice text start ?n]"
        using Suc.prems(1) by (simp add: split_loop_last [OF True last])
      ultimately show ?thesis
        using Suc.prems(3) by auto
    next
      case more: False
      have "length (py_slice text start ?b) \<le> nat (?b - start)"
        using Suc.prems(2) b(1) by (intro length_py_slice_le) auto
      then have len: "int (length (py_slice text start ?b)) \<le> max_chunk_size cfg"
        using b Suc.prems(2) by linarith
      have run: "split_loop fuel cfg text (advance cfg ?b) (chunks @ [py_slice text start ?b]) = Some out"
        using Suc.prems(1) by (simp add: split_loop_more [OF True more])
      have "0 \<le> advance cfg ?b"
        using b(1) Suc.prems(2) by (intro advance_nonneg) auto
      moreover have "\<forall>c \<in> set (chunks @ [py_slice text start ?b]). int (length c) \<le> max_chunk_size cfg"
        using Suc.prems(3) len by auto
      ultimately show ?thesis
        using Suc.IH [OF run] by blast
    qed
  qed
qed

lemma length_strip_le: "length (strip s) \<le> length s"
proof -
  have "length (strip s) \<le> length (dropWhile isspace s)"
    using length_dropWhile_le [of isspace "rev (dropWhile isspace s)"] by (simp add: strip_def)
  also have "\<dots> \<le> length s"
    by (rule length_dropWhile_le)
  finally show ?thesis .
qed

lemma coalesce_bounded:
  assumes "0 \<le> max_chunk_size cfg"
  shows "coalesce cfg m raws merged_chunks current_chunk = (merged', current') \<Longrightarrow>
    \<forall>r \<in> set raws. int (length r) \<le> max_chunk_size cfg \<Longrightarrow>
    \<forall>c \<in> set merged_chunks. int (length c) \<le> max_chunk_size cfg + 1 \<Longrightarrow>
    int (length current_chunk) \<le> max_chunk_size cfg + 1 \<Longrightarrow>
    (\<forall>c \<in> set merged'. int (length c) \<le> max_chunk_size cfg + 1)
      \<and> int (length current') \<le> max_chunk_size cfg + 1"
proof (induction raws arbitrary: merged_chunks current_chunk)
  case Nil
  then show ?case by simp
next
  case (Cons raw rest)
  let ?chunk = "strip raw"
  have small: "int (length ?chunk) \<le> max_chunk_size cfg"
    using Cons.prems(2) length_strip_le [of raw] by force
  have rest: "\<forall>r \<in> set rest. int (length r) \<le> max_chunk_size cfg"
    using Cons.prems(2) by simp
  show ?case
  proof (cases "?chunk = []")
    case True
    with Cons.prems(1) have "coalesce cfg m rest merged_chunks current_chunk = (merged', current')"
      by simp
    from Cons.IH [OF this rest Cons.prems(3) Cons.prems(4)] show ?thesis .
  next
    case False
    show ?thesis
    proof (cases "int (length current_chunk) + int (length ?chunk) \<le> max_chunk_size cfg")
      case fits: True
      let ?cur = "if current_chunk \<noteq> [] then current_chunk @ '' '' @ ?chunk else ?chunk"
      have run: "coalesce cfg m rest merged_chunks ?cur = (merged', current')"
        using Cons.prems(1) False fits by (simp add: Let_def)
      have "int (length ?cur) \<le> max_chunk_size cfg + 1"
        using fits small by auto
      from Cons.IH [OF run rest Cons.prems(3) this] show ?thesis .
    next
      case over: False
      let ?merged = "if current_chunk \<noteq> [] \<and> int (length current_chunk) \<ge> m
          then merged_chunks @ [current_chunk] else merged_chunks"
      have run: "coalesce cfg m rest ?merged ?chunk = (merged', current')"
        using Cons.prems(1) False over by (simp add: Let_def)
      have "\<forall>c \<in> set ?merged. int (length c) \<le> max_chunk_size cfg + 1"
        using Cons.prems(3) Cons.prems(4) by auto
      moreover have "int (length ?chunk) \<le> max_chunk_size cfg + 1"
        using small by simp
      ultimately show ?thesis
        using Cons.IH [OF run rest] by blast
    qed
  qed
qed

lemma filter_chunks_subset: "\<exists>kept. filter_chunks chunks = Inr kept \<and> set kept \<subseteq> set chunks"
proof (cases "length chunks \<le> 3")
  case True
  then show ?thesis
    by (simp add: filter_chunks_def)
next
  case False
  then have ne: "chunks \<noteq> []" and two: "2 \<le> length chunks"
    and mid: "length chunks div 2 < length chunks"
    by auto
  have first: "py_get chunks 0 = Inr (chunks ! 0)"
    using ne by (simp add: py_get_def)
  have penultimate: "py_get chunks (- 2) = Inr (chunks ! (length chunks - 2))"
    using two by (rule py_get_second_to_last)
  have "int (length chunks) div 2 = int (length chunks div 2)"
    by simp
  then have middle: "py_get chunks (int (length chunks) div 2) = Inr (chunks ! (length chunks div 2))"
    using py_get_nth [OF mid] by simp
  have "filter_chunks chunks =
      Inr [chunks ! 0, chunks ! (length chunks div 2), chunks ! (length chunks - 2)]"
    using False by (simp add: filter_chunks_def first penultimate middle)
  moreover have "chunks ! 0 \<in> set chunks" "chunks ! (length chunks div 2) \<in> set chunks"
    "chunks ! (length chunks - 2) \<in> set chunks"
    using ne two mid by (auto intro: nth_mem)
  ultimately show ?thesis
    by simp
qed

lemma chunk_text_bounded:
  assumes "0 \<le> max_chunk_size cfg" and "chunk_text fuel cfg text = Some chunks"
  shows "\<forall>c \<in> set chunks. int (length c) \<le> max_chunk_size cfg"
  using assms(2) split_loop_bounded [OF assms(1), of fuel "collapse_whitespace (strip text)" 0 "[]" chunks]
  by (simp add: chunk_text_def split_text_manual_def)

lemma chunk_document_bounded:
  assumes "0 \<le> max_chunk_size cfg"
    and "chunk_document fuel cfg content min_chunk_size = Some result"
  shows "\<exists>emitted. result = Inr emitted
    \<and> (\<forall>c \<in> set emitted. int (length c) \<le> max_chunk_size cfg + 1)"
proof -
  from assms(2) obtain chunks where raw: "chunk_text fuel cfg content = Some chunks"
    by (auto simp: chunk_document_def split: option.splits)
  obtain merged_chunks current_chunk where
    co: "coalesce cfg min_chunk_size chunks [] [] = (merged_chunks, current_chunk)"
    by (cases "coalesce cfg min_chunk_size chunks [] []") auto
  let ?all = "if current_chunk \<noteq> [] \<and> int (length current_chunk) \<ge> min_chunk_size
      then merged_chunks @ [current_chunk] else merged_chunks"
  have result: "result = filter_chunks ?all"
    using assms(2) raw co by (simp add: chunk_document_def)
  have "(\<forall>c \<in> set merged_chunks. int (length c) \<le> max_chunk_size cfg + 1)
      \<and> int (length current_chunk) \<le> max_chunk_size cfg + 1"
    using coalesce_bounded [OF assms(1) co] chunk_text_bounded [OF assms(1) raw] assms(1)
    by simp
  then have "\<forall>c \<in> set ?all. int (length c) \<le> max_chunk_size cfg + 1"
    by auto
  moreover obtain kept where "filter_chunks ?all = Inr kept" and "set kept \<subseteq> set ?all"
    using filter_chunks_subset by blast
  ultimately show ?thesis
    using result by blast
qed

definition small_chunker :: chunker where
  "small_chunker = \<lparr>max_chunk_size = 10, overlap = 3\<rparr>"

text \<open>
  C4. With a non-negative \<open>max_chunk_size\<close>, every raw chunk returned by \<open>chunk_text\<close> and every
  chunk returned by \<open>chunk_document\<close> has at most \<open>max_chunk_size + 2\<close> characters, 2 being the
  length of the longest separator; \<open>chunk_document\<close> raises no exception.
\<close>

theorem chunk_boundedness:
  assumes "0 \<le> max_chunk_size cfg"
  shows "(chunk_text fuel cfg text = Some chunks \<longrightarrow>
        (\<forall>c \<in> set chunks. int (length c) \<le> max_chunk_size cfg + 2))
    \<and> (chunk_document fuel cfg content min_chunk_size = Some result \<longrightarrow>
        (\<exists>emitted. result = Inr emitted
          \<and> (\<forall>c \<in> set emitted. int (length c) \<le> max_chunk_size cfg + 2)))"
proof (intro conjI impI)
  assume "chunk_text fuel cfg text = Some chunks"
  from chunk_text_bounded [OF assms this]
  show "\<forall>c \<in> set chunks. int (length c) \<le> max_chunk_size cfg + 2"
    by force
next
  assume "chunk_document fuel cfg content min_chunk_size = Some result"
  from chunk_document_bounded [OF assms this]
  show "\<exists>emitted. result = Inr emitted
      \<and> (\<forall>c \<in> set emitted. int (length c) \<le> max_chunk_size cfg + 2)"
    by force
qed

theorem chunk_boundedness_witness:
  "chunk_text 20 small_chunker ''  hello world, this   is a test. And more text here  ''
     = Some [''hello worl'', ''orld, this'', ''his is a '', '' a test. '', ''t. And mor'',
             ''more text '', ''xt here'']
   \<and> list_all (\<lambda>c. int (length c) \<le> 12)
       [''hello worl'', ''orld, this'', ''his is a '', '' a test. '', ''t. And mor'',
             ''more text '', ''xt here'']
   \<and> chunk_document 20 small_chunker ''  hello world, this   is a test. And more text here  '' 3
     = Some (Inr [''hello worl'', ''a test.'', ''more text''])
   \<and> list_all (\<lambda>c. int (length c) \<le> 12) [''hello worl'', ''a test.'', ''more text'']"
proof -
  have cfg: "0 \<le> max_chunk_size small_chunker" and m: "max_chunk_size small_chunker + 2 = 12"
    by (simp_all add: small_chunker_def)
  have raw: "chunk_text 20 small_chunker ''  hello world, this   is a test. And more text here  ''
     = Some [''hello worl'', ''orld, this'', ''his is a '', '' a test. '', ''t. And mor'',
             ''more text '', ''xt here'']"
    by code_simp
  have doc: "chunk_document 20 small_chunker ''  hello world, this   is a test. And more text here  '' 3
     = Some (Inr [''hello worl'', ''a test.'', ''more text''])"
    by code_simp
  from chunk_boundedness [OF cfg, of 20 "''  hello world, this   is a test. And more text here  ''"
      "[''hello worl'', ''orld, this'', ''his is a '', '' a test. '', ''t. And mor'',
             ''more text '', ''xt here'']"
      "''  hello world, this   is a test. And more text here  ''" 3
      "Inr [''hello worl'', ''a test.'', ''more text'']"] raw doc
  show ?thesis
    unfolding m by (simp add: list_all_iff)
qed









subsection \<open>Progress of the cursor\<close>

lemma window_end_cases:
  "start < int (length text) \<Longrightarrow> window_end cfg text start \<noteq> int (length text) \<Longrightarrow>
   window_end cfg text start = start + max_chunk_size cfg"
  by (simp add: window_end_def min_def split: if_splits)

text \<open>
  When the overlap is at most 60 percent of a positive \<open>max_chunk_size\<close>, the cursor moves
  forward in every iteration that does not end the loop.
\<close>

lemma cursor_advances:
  assumes "0 < max_chunk_size cfg" and "5 * overlap cfg \<le> 3 * max_chunk_size cfg"
    and "start < int (length text)" and "window_end cfg text start \<noteq> int (length text)"
  shows "start < advance cfg (break_at cfg text start)"
proof -
  let ?b = "break_at cfg text start"
  have w: "window_end cfg text start = start + max_chunk_size cfg"
    using assms(3,4) by (rule window_end_cases)
  have "?b = window_end cfg text start \<or> 5 * ?b > 5 * start + 3 * max_chunk_size cfg"
    unfolding break_at_def by (rule find_break_far)
  then have far: "5 * ?b > 5 * start + 3 * max_chunk_size cfg"
    using w assms(1) by auto
  show ?thesis
  proof (cases "?b > overlap cfg")
    case True
    then have "advance cfg ?b = ?b - overlap cfg"
      by (simp add: advance_def)
    with far assms(2) show ?thesis
      by linarith
  next
    case False
    then have "advance cfg ?b = ?b"
      by (simp add: advance_def)
    with far assms(1) show ?thesis
      by linarith
  qed
qed

lemma split_loop_terminates:
  assumes "0 < max_chunk_size cfg" and "5 * overlap cfg \<le> 3 * max_chunk_size cfg"
  shows "\<exists>out. split_loop (Suc (nat (int (length text) - start))) cfg text start chunks = Some out"
proof (induction "nat (int (length text) - start)" arbitrary: start chunks rule: less_induct)
  case less
  let ?n = "int (length text)"
  let ?b = "break_at cfg text start"
  show ?case
  proof (cases "start < ?n")
    case False
    then show ?thesis by (simp add: split_loop_done)
  next
    case True
    show ?thesis
    proof (cases "window_end cfg text start = ?n")
      case last: True
      show ?thesis by (simp add: split_loop_last [OF True last])
    next
      case more: False
      let ?start' = "advance cfg ?b"
      let ?chunks' = "chunks @ [py_slice text start ?b]"
      have forward: "start < ?start'"
        using assms True more by (rule cursor_advances)
      then have smaller: "nat (?n - ?start') < nat (?n - start)"
        using True by linarith
      from less [OF smaller, of ?chunks'] obtain out where
        "split_loop (Suc (nat (?n - ?start'))) cfg text ?start' ?chunks' = Some out"
        by blast
      moreover have "Suc (nat (?n - ?start')) \<le> nat (?n - start)"
        using smaller by linarith
      ultimately have "split_loop (nat (?n - start)) cfg text ?start' ?chunks' = Some out"
        by (rule split_loop_mono)
      then show ?thesis
        by (simp add: split_loop_more [OF True more])
    qed
  qed
qed

lemma split_text_manual_terminates:
  assumes "0 < max_chunk_size cfg" and "5 * overlap cfg \<le> 3 * max_chunk_size cfg"
  shows "\<exists>fuel chunks. chunk_text fuel cfg text = Some chunks"
  using split_loop_terminates [OF assms, of "collapse_whitespace (strip text)" 0 "[]"]
  unfolding chunk_text_def split_text_manual_def by blast

subsection \<open>A chunker whose overlap equals its chunk size\<close>

definition stalled_chunker :: chunker where
  "stalled_chunker = \<lparr>max_chunk_size = 10, overlap = 10\<rparr>"

lemma stalled_first:
  "window_end stalled_chunker ''aaaaaaaaaaaaaaaaaaaaaaaaa'' 0 = 10
   \<and> break_at stalled_chunker ''aaaaaaaaaaaaaaaaaaaaaaaaa'' 0 = 10
   \<and> advance stalled_chunker 10 = 10"
  by code_simp

lemma stalled_again:
  "window_end stalled_chunker ''aaaaaaaaaaaaaaaaaaaaaaaaa'' 10 = 20
   \<and> break_at stalled_chunker ''aaaaaaaaaaaaaaaaaaaaaaaaa'' 10 = 20
   \<and> advance stalled_chunker 20 = 10"
  by code_simp

lemma stalled_loop:
  "split_loop fuel stalled_chunker ''aaaaaaaaaaaaaaaaaaaaaaaaa'' 10 chunks = None"
proof (induction fuel arbitrary: chunks)
  case 0
  show ?case by (simp add: split_loop.simps)
next
  case (Suc fuel)
  have "split_loop (Suc fuel) stalled_chunker ''aaaaaaaaaaaaaaaaaaaaaaaaa'' 10 chunks
      = split_loop fuel stalled_chunker ''aaaaaaaaaaaaaaaaaaaaaaaaa''
          (advance stalled_chunker (break_at stalled_chunker ''aaaaaaaaaaaaaaaaaaaaaaaaa'' 10))
          (chunks @ [py_slice ''aaaaaaaaaaaaaaaaaaaaaaaaa'' 10
              (break_at stalled_chunker ''aaaaaaaaaaaaaaaaaaaaaaaaa'' 10)])"
    using stalled_again by (intro split_loop_more) simp_all
  then show ?case
    using stalled_again Suc.IH by simp
qed

text \<open>
  C2. The code does not do what the claim says when the overlap is as large as the chunks:
  with \<open>max_chunk_size = 10\<close> and \<open>overlap = 10\<close> on a text of 25 letters without separator,
  the first chunk ends at 10 and the cursor moves to 10; from then on every chunk ends at 20
  and the cursor is set to \<open>20 - 10 = 10\<close> again, so the cursor does not increase and no
  amount of fuel lets \<open>chunk_text\<close> return.
\<close>

theorem chunk_text_stalls:
  "chunk_text fuel stalled_chunker ''aaaaaaaaaaaaaaaaaaaaaaaaa'' = None
   \<and> advance stalled_chunker (break_at stalled_chunker ''aaaaaaaaaaaaaaaaaaaaaaaaa'' 10) = 10"
proof -
  have norm: "collapse_whitespace (strip ''aaaaaaaaaaaaaaaaaaaaaaaaa'') = ''aaaaaaaaaaaaaaaaaaaaaaaaa''"
    by code_simp
  have "split_loop fuel stalled_chunker ''aaaaaaaaaaaaaaaaaaaaaaaaa'' 0 [] = None"
  proof (cases fuel)
    case 0
    then show ?thesis by (simp add: split_loop.simps)
  next
    case (Suc f)
    have "split_loop (Suc f) stalled_chunker ''aaaaaaaaaaaaaaaaaaaaaaaaa'' 0 []
      = split_loop f stalled_chunker ''aaaaaaaaaaaaaaaaaaaaaaaaa''
          (advance stalled_chunker (break_at stalled_chunker ''aaaaaaaaaaaaaaaaaaaaaaaaa'' 0))
          ([] @ [py_slice ''aaaaaaaaaaaaaaaaaaaaaaaaa'' 0
              (break_at stalled_chunker ''aaaaaaaaaaaaaaaaaaaaaaaaa'' 0)])"
      using stalled_first by (intro split_loop_more) simp_all
    then show ?thesis
      using stalled_first stalled_loop Suc by simp
  qed
  then show ?thesis
    using stalled_again by (simp add: chunk_text_def split_text_manual_def norm)
qed

section \<open>The caller's list: merge_documents on a store\<close>

text \<open>
  Python lists are objects, and \<open>merge_documents\<close> works on the list object that the caller
  passes: \<open>random.shuffle(documents)\<close> rearranges it in place, \<open>current_level = documents\<close>
  makes a second name for it, \<open>next_level = []\<close> creates a new object in every round, and
  \<open>append\<close> changes the object it is called on. The store maps the address of each list object
  to its content; \<open>fresh\<close> is the next unused address.
\<close>

record store =
  cells :: "nat \<Rightarrow> string list"
  fresh :: nat

definition new_list :: "store \<Rightarrow> nat \<times> store" where
  "new_list h = (fresh h, h\<lparr>cells := (cells h)(fresh h := []), fresh := Suc (fresh h)\<rparr>)"

definition list_append :: "store \<Rightarrow> nat \<Rightarrow> string \<Rightarrow> store" where
  "list_append h a x = h\<lparr>cells := (cells h)(a := cells h a @ [x])\<rparr>"

definition shuffle_in_place :: "env \<Rightarrow> store \<Rightarrow> nat \<Rightarrow> store" where
  "shuffle_in_place env h a = h\<lparr>cells := (cells h)(a := random_shuffle env (cells h a))\<rparr>"

fun collect_into :: "(exn + string) list \<Rightarrow> nat \<Rightarrow> store \<Rightarrow> store" where
  "collect_into [] next_level h = h"
| "collect_into (Inr merged # futures) next_level h =
     collect_into futures next_level (list_append h next_level merged)"
| "collect_into (Inl e # futures) next_level h = collect_into futures next_level h"

definition round_in_store :: "env \<Rightarrow> nat \<Rightarrow> nat \<Rightarrow> store \<Rightarrow> exn + (nat \<times> store)" where
  "round_in_store env k current_level h =
     (case new_list h of
        (next_level, h1) \<Rightarrow>
          (case create_pairs (cells h1 current_level) of
             Inl e \<Rightarrow> Inl e
           | Inr pairs \<Rightarrow>
               (let futures = map (\<lambda>(i, pair). merge_pair (summarize env k i) pair)
                                (enumerate 0 pairs);
                    h2 = collect_into (map snd (as_completed (finish env k) futures)) next_level h1
                in if int (length (cells h2 current_level)) mod 2 = 1
                   then (case py_get (cells h2 current_level) (- 1) of
                           Inl e \<Rightarrow> Inl e
                         | Inr tail \<Rightarrow> Inr (next_level, list_append h2 next_level tail))
                   else Inr (next_level, h2))))"

lemma cells_collect_into:
  "cells (collect_into rs a h) = (cells h)(a := cells h a @ summaries rs)"
  by (induction rs a h rule: collect_into.induct)
    (auto simp: summaries_def list_append_def fun_eq_iff)

lemma fresh_collect_into: "fresh (collect_into rs a h) = fresh h"
  by (induction rs a h rule: collect_into.induct) (simp_all add: list_append_def)

text \<open>
  A round on the store, for a current level other than the list about to be created: the new
  list gets the next level of \<open>merge_round\<close>, and no other list changes.
\<close>

lemma round_in_store_eq:
  assumes other: "current_level \<noteq> fresh h"
  shows "\<exists>h'. round_in_store env k current_level h = Inr (fresh h, h')
    \<and> cells h' = (cells h)(fresh h := round_next env k (cells h current_level))
    \<and> fresh h' = Suc (fresh h)"
proof -
  let ?level = "cells h current_level"
  let ?h1 = "h\<lparr>cells := (cells h)(fresh h := []), fresh := Suc (fresh h)\<rparr>"
  let ?fs = "futures_of env k ?level"
  let ?h2 = "collect_into (map snd (as_completed (finish env k) ?fs)) (fresh h) ?h1"
  let ?merged = "summaries (map snd (as_completed (finish env k) ?fs))"
  have nl: "new_list h = (fresh h, ?h1)"
    by (simp add: new_list_def)
  have level1: "cells ?h1 current_level = ?level"
    using other by simp
  have cells2: "cells ?h2 = (cells h)(fresh h := ?merged)"
    by (simp add: cells_collect_into)
  have level2: "cells ?h2 current_level = ?level"
    using other by (simp add: cells2)
  have fresh2: "fresh ?h2 = Suc (fresh h)"
    by (simp add: fresh_collect_into)
  show ?thesis
  proof (cases "odd (length ?level)")
    case True
    then have ne: "?level \<noteq> []"
      by auto
    from True have m: "int (length ?level) mod 2 = 1"
      by presburger
    let ?h3 = "list_append ?h2 (fresh h) (last ?level)"
    have "round_in_store env k current_level h = Inr (fresh h, ?h3)"
      by (simp only: round_in_store_def nl prod.case level1 create_pairs_ok sum.case
          futures_enumerate Let_def level2 m if_True py_get_last [OF ne] simp_thms)
    moreover have "cells ?h3 = (cells h)(fresh h := round_next env k ?level)"
      using True by (simp add: list_append_def cells2 round_next_def)
    moreover have "fresh ?h3 = Suc (fresh h)"
      by (simp add: list_append_def fresh2)
    ultimately show ?thesis
      by blast
  next
    case False
    then have m: "int (length ?level) mod 2 \<noteq> 1"
      by presburger
    have "round_in_store env k current_level h = Inr (fresh h, ?h2)"
      by (simp only: round_in_store_def nl prod.case level1 create_pairs_ok sum.case
          futures_enumerate Let_def level2 m if_False simp_thms)
    moreover have "cells ?h2 = (cells h)(fresh h := round_next env k ?level)"
      using False by (simp add: cells2 round_next_def)
    ultimately show ?thesis
      using fresh2 by blast
  qed
qed


lemma round_in_store_self:
  "round_in_store env k (fresh h) h
     = Inr (fresh h, h\<lparr>cells := (cells h)(fresh h := []), fresh := Suc (fresh h)\<rparr>)"
  by (simp add: round_in_store_def new_list_def create_pairs_ok as_completed_def reorder_def)

lemma round_in_store_shrinks:
  assumes "round_in_store env k current_level h = Inr (next_level, h')"
    and "1 < length (cells h current_level)"
  shows "length (cells h' next_level) < length (cells h current_level)"
proof (cases "current_level = fresh h")
  case True
  with assms show ?thesis
    by (auto simp: round_in_store_self)
next
  case False
  from round_in_store_eq [OF False, of env k] assms(1)
  have "cells h' next_level = round_next env k (cells h current_level)"
    by auto
  then show ?thesis
    using length_round_next_le [of env k "cells h current_level"] assms(2) by simp
qed

text \<open>The \<open>while\<close> loop on the store; \<open>current_level\<close> is the address that the name holds.\<close>

function loop_in_store :: "env \<Rightarrow> nat \<Rightarrow> nat \<Rightarrow> store \<Rightarrow> exn + (nat \<times> store)" where
  "loop_in_store env k current_level h =
     (if length (cells h current_level) > 1
      then (case round_in_store env k current_level h of
              Inl e \<Rightarrow> Inl e
            | Inr (next_level, h') \<Rightarrow> loop_in_store env (Suc k) next_level h')
      else Inr (current_level, h))"
  by pat_completeness auto
termination
proof (relation "measure (\<lambda>(env, k, current_level, h). length (cells h current_level))")
  show "wf (measure (\<lambda>(env, k, current_level, h). length (cells h current_level)))"
    by simp
next
  fix env :: env and k current_level :: nat and h :: store
    and x2 :: "nat \<times> store" and next_level :: nat and h' :: store
  assume "1 < length (cells h current_level)"
    and "round_in_store env k current_level h = Inr x2" and "(next_level, h') = x2"
  then have "length (cells h' next_level) < length (cells h current_level)"
    using round_in_store_shrinks [of env k current_level h next_level h'] by simp
  then show "((env, Suc k, next_level, h'), (env, k, current_level, h))
      \<in> measure (\<lambda>(env, k, current_level, h). length (cells h current_level))"
    by simp
qed

declare loop_in_store.simps [simp del]

text \<open>
  \<open>merge_documents\<close> on the store: \<open>documents\<close> is the address of the caller's list. The result
  is the string returned and the store at the return.
\<close>

definition merge_documents_in_store :: "env \<Rightarrow> nat \<Rightarrow> store \<Rightarrow> exn + (string \<times> store)" where
  "merge_documents_in_store env documents h =
     (if cells h documents = [] then Inr ([], h)
      else if length (cells h documents) = 1 then
        (case py_get (cells h documents) 0 of
           Inl e \<Rightarrow> Inl e
         | Inr d \<Rightarrow> Inr (d, h))
      else
        (case loop_in_store env 0 documents
                (if SHUFFLE_CHUNKS env then shuffle_in_place env h documents else h) of
           Inl e \<Rightarrow> Inl e
         | Inr (current_level, h') \<Rightarrow>
             if cells h' current_level \<noteq> [] then
               (case py_get (cells h' current_level) 0 of
                  Inl e \<Rightarrow> Inl e
                | Inr d \<Rightarrow> Inr (d, h'))
             else Inr ([], h')))"

lemma loop_in_store_eq:
  "current_level < fresh h \<Longrightarrow>
   \<exists>final h' k' made'. loop_in_store env k current_level h = Inr (final, h')
     \<and> (\<forall>a < fresh h. cells h' a = cells h a)
     \<and> merge_loop env k (cells h current_level) made = Inr (k', cells h' final, made')"
proof (induction "length (cells h current_level)" arbitrary: k current_level h made rule: less_induct)
  case less
  let ?level = "cells h current_level"
  show ?case
  proof (cases "1 < length ?level")
    case False
    then show ?thesis
      by (simp add: loop_in_store.simps merge_loop_stop)
  next
    case True
    have other: "current_level \<noteq> fresh h"
      using less.prems by simp
    from round_in_store_eq [OF other, of env k] obtain h1 where
      round: "round_in_store env k current_level h = Inr (fresh h, h1)"
      and cells1: "cells h1 = (cells h)(fresh h := round_next env k ?level)"
      and fresh1: "fresh h1 = Suc (fresh h)"
      by blast
    have next_level: "cells h1 (fresh h) = round_next env k ?level"
      by (simp add: cells1)
    have smaller: "length (cells h1 (fresh h)) < length ?level"
      using length_round_next_le [of env k ?level] True by (simp add: next_level)
    have allocated: "fresh h < fresh h1"
      by (simp add: fresh1)
    from less.hyps [OF smaller allocated, of "Suc k" "made @ round_calls env k ?level"]
    obtain final h' k' made' where
      loop: "loop_in_store env (Suc k) (fresh h) h1 = Inr (final, h')"
      and frame: "\<forall>a < fresh h1. cells h' a = cells h1 a"
      and pure: "merge_loop env (Suc k) (cells h1 (fresh h)) (made @ round_calls env k ?level)
          = Inr (k', cells h' final, made')"
      by blast
    have "loop_in_store env k current_level h = Inr (final, h')"
      using True round loop by (simp add: loop_in_store.simps [of env k current_level h])
    moreover have "\<forall>a < fresh h. cells h' a = cells h a"
      using frame by (simp add: fresh1 cells1)
    moreover have "merge_loop env k ?level made = Inr (k', cells h' final, made')"
      using pure by (simp only: merge_loop_step [OF True] next_level)
    ultimately show ?thesis
      by blast
  qed
qed

lemma mset_random_shuffle: "mset (random_shuffle env documents) = mset documents"
  by (simp add: random_shuffle_def mset_reorder)

definition reversing_env :: env where
  "reversing_env = \<lparr>summarize = (\<lambda>k i text is_final. Inr text), finish = (\<lambda>k i. i),
     SHUFFLE_CHUNKS = True, shuffle_key = (\<lambda>i. 2 - i)\<rparr>"

definition caller_store :: store where
  "caller_store = \<lparr>cells = (\<lambda>a. if a = 0 then [''A'', ''B'', ''C''] else []), fresh = 1\<rparr>"

text \<open>
  C10. After \<open>merge_documents\<close> returns, the caller's list holds the shuffled pool when
  \<open>SHUFFLE_CHUNKS\<close> is set and the pool has at least two elements, a permutation of what it
  held; otherwise it holds what it held before. The rounds themselves change only lists that
  they create. The string returned is the one of the list-level model.
\<close>

theorem caller_list_after_merge:
  assumes "documents < fresh h"
  shows "\<exists>d h'. merge_documents_in_store env documents h = Inr (d, h')
    \<and> cells h' documents =
        (if SHUFFLE_CHUNKS env \<and> 1 < length (cells h documents)
         then random_shuffle env (cells h documents) else cells h documents)
    \<and> mset (cells h' documents) = mset (cells h documents)
    \<and> (\<exists>r. merge_documents env (cells h documents) = Inr r \<and> returned r = d)"
proof -
  let ?docs = "cells h documents"
  show ?thesis
  proof (cases "?docs = [] \<or> length ?docs = 1")
    case True
    then show ?thesis
      by (auto simp: merge_documents_in_store_def merge_documents_def py_get_def)
  next
    case False
    then have big: "1 < length ?docs"
      by (cases ?docs) auto
    let ?h1 = "if SHUFFLE_CHUNKS env then shuffle_in_place env h documents else h"
    let ?start = "if SHUFFLE_CHUNKS env then random_shuffle env ?docs else ?docs"
    have start: "cells ?h1 documents = ?start"
      by (simp add: shuffle_in_place_def)
    have allocated: "documents < fresh ?h1"
      using assms by (simp add: shuffle_in_place_def)
    from loop_in_store_eq [OF allocated, of env 0 "[]"] obtain final h' k' made' where
      loop: "loop_in_store env 0 documents ?h1 = Inr (final, h')"
      and frame: "\<forall>a < fresh ?h1. cells h' a = cells ?h1 a"
      and pure: "merge_loop env 0 (cells ?h1 documents) [] = Inr (k', cells h' final, made')"
      by blast
    have kept: "cells h' documents = ?start"
      using frame allocated start by simp
    have pure': "merge_loop env 0 ?start [] = Inr (k', cells h' final, made')"
      using pure by (simp only: start)
    let ?d = "if cells h' final \<noteq> [] then cells h' final ! 0 else []"
    have get: "cells h' final \<noteq> [] \<Longrightarrow> py_get (cells h' final) 0 = Inr (cells h' final ! 0)"
      by (simp add: py_get_def)
    have store_run: "merge_documents_in_store env documents h = Inr (?d, h')"
      using False get unfolding merge_documents_in_store_def
      by (simp only: loop if_False sum.case prod.case) auto
    have list_run: "\<exists>r. merge_documents env ?docs = Inr r \<and> returned r = ?d"
      using False get unfolding merge_documents_def
      by (simp only: pure' if_False sum.case prod.case) auto
    have "cells h' documents =
        (if SHUFFLE_CHUNKS env \<and> 1 < length ?docs then random_shuffle env ?docs else ?docs)"
      using kept big by simp
    moreover have "mset (cells h' documents) = mset ?docs"
      using kept by (simp add: mset_random_shuffle)
    ultimately show ?thesis
      using store_run list_run by blast
  qed
qed

theorem caller_list_after_merge_witness:
  "\<exists>d h'. merge_documents_in_store reversing_env 0 caller_store = Inr (d, h')
     \<and> cells caller_store 0 = [''A'', ''B'', ''C'']
     \<and> cells h' 0 = [''C'', ''B'', ''A'']"
proof -
  have allocated: "0 < fresh caller_store"
    by (simp add: caller_store_def)
  have before: "cells caller_store 0 = [''A'', ''B'', ''C'']"
    by (simp add: caller_store_def)
  have flag: "SHUFFLE_CHUNKS reversing_env"
    by (simp add: reversing_env_def)
  have shuffled: "random_shuffle reversing_env [''A'', ''B'', ''C''] = [''C'', ''B'', ''A'']"
    by code_simp
  from caller_list_after_merge [OF allocated, of reversing_env] show ?thesis
    by (auto simp: before flag shuffled)
qed

end
